theory Spec2Isabelle
  imports Main "HOL-Library.Word" "HOL-Library.Monad_Syntax"
begin

unbundle bit_operations_syntax

section \<open>Data model\<close>

type_synonym u8 = "8 word"
type_synonym u64 = "64 word"

text \<open>
  The engine state \<open>CSipHash\<close>. The header that declares the struct is not part of the
  sources at hand; the fields are the six that \<open>c_siphash_init\<close> assigns. The field
  \<open>n_bytes\<close> is a \<open>size_t\<close>, taken here as 64 bits wide (the specification calls it
  a 64-bit running count), so that \<open>+\<close> on it wraps modulo \<open>2 ^ 64\<close>.
\<close>

record CSipHash =
  v0 :: u64
  v1 :: u64
  v2 :: u64
  v3 :: u64
  padding :: u64
  n_bytes :: u64

text \<open>
  A \<open>const uint8_t *\<close> argument: either the null pointer, or a pointer to a run of
  readable bytes. A pointer derived from it by pointer arithmetic is the argument together
  with an offset, which is an \<open>int\<close> so that moving a pointer backwards is not truncated.
  Dereferencing is the only operation that can fault; it yields \<open>None\<close> for the null
  pointer and for every offset outside the readable bytes.
\<close>

datatype pointer = NULL | Ptr "u8 list"

fun readable :: "pointer \<Rightarrow> u8 list" where
  "readable NULL = []"
| "readable (Ptr xs) = xs"

definition deref :: "pointer \<Rightarrow> int \<Rightarrow> u8 option" where
  "deref p i =
     (case p of
        NULL \<Rightarrow> None
      | Ptr xs \<Rightarrow> if 0 \<le> i \<and> i < int (length xs) then Some (xs ! nat i) else None)"

section \<open>Helpers of the implementation\<close>

text \<open>\<open>c_siphash_read_le64(bytes)\<close>, with \<open>bytes\<close> at offset \<open>off\<close> of \<open>p\<close>.\<close>

definition c_siphash_read_le64 :: "pointer \<Rightarrow> int \<Rightarrow> u64 option" where
  "c_siphash_read_le64 p off = do {
     b0 \<leftarrow> deref p (off + 0);
     b1 \<leftarrow> deref p (off + 1);
     b2 \<leftarrow> deref p (off + 2);
     b3 \<leftarrow> deref p (off + 3);
     b4 \<leftarrow> deref p (off + 4);
     b5 \<leftarrow> deref p (off + 5);
     b6 \<leftarrow> deref p (off + 6);
     b7 \<leftarrow> deref p (off + 7);
     Some (ucast b0 OR
           push_bit 8 (ucast b1) OR
           push_bit 16 (ucast b2) OR
           push_bit 24 (ucast b3) OR
           push_bit 32 (ucast b4) OR
           push_bit 40 (ucast b5) OR
           push_bit 48 (ucast b6) OR
           push_bit 56 (ucast b7))
   }"

text \<open>
  \<open>(x << b) | (x >> (64 - b))\<close> on \<open>uint64_t\<close>, the amount a \<open>uint8_t\<close>. The round
  calls it with the amounts 13, 32, 16, 21 and 17 only; for an amount of 0 or of 64 and
  more the C expression shifts by the full width or more, which C leaves undefined.
\<close>

definition c_siphash_rotate_left :: "u64 \<Rightarrow> u8 \<Rightarrow> u64" where
  "c_siphash_rotate_left x b = push_bit (unat b) x OR drop_bit (64 - unat b) x"

definition c_siphash_sipround :: "CSipHash \<Rightarrow> CSipHash" where
  "c_siphash_sipround state0 =
     (let state = state0\<lparr>v0 := v0 state0 + v1 state0\<rparr>;
          state = state\<lparr>v1 := c_siphash_rotate_left (v1 state) 13\<rparr>;
          state = state\<lparr>v1 := v1 state XOR v0 state\<rparr>;
          state = state\<lparr>v0 := c_siphash_rotate_left (v0 state) 32\<rparr>;
          state = state\<lparr>v2 := v2 state + v3 state\<rparr>;
          state = state\<lparr>v3 := c_siphash_rotate_left (v3 state) 16\<rparr>;
          state = state\<lparr>v3 := v3 state XOR v2 state\<rparr>;
          state = state\<lparr>v0 := v0 state + v3 state\<rparr>;
          state = state\<lparr>v3 := c_siphash_rotate_left (v3 state) 21\<rparr>;
          state = state\<lparr>v3 := v3 state XOR v0 state\<rparr>;
          state = state\<lparr>v2 := v2 state + v1 state\<rparr>;
          state = state\<lparr>v1 := c_siphash_rotate_left (v1 state) 17\<rparr>;
          state = state\<lparr>v1 := v1 state XOR v2 state\<rparr>;
          state = state\<lparr>v2 := c_siphash_rotate_left (v2 state) 32\<rparr>
      in state)"

section \<open>The public operations\<close>

definition c_siphash_init :: "pointer \<Rightarrow> CSipHash option" where
  "c_siphash_init seed = do {
     k0 \<leftarrow> c_siphash_read_le64 seed 0;
     k1 \<leftarrow> c_siphash_read_le64 seed 8;
     Some \<lparr> v0 = 0x736f6d6570736575 XOR k0,
            v1 = 0x646f72616e646f6d XOR k1,
            v2 = 0x6c7967656e657261 XOR k0,
            v3 = 0x7465646279746573 XOR k1,
            padding = 0,
            n_bytes = 0 \<rparr>
   }"

text \<open>
  The first loop of \<open>c_siphash_append\<close>:
  \<open>for ( ; bytes < end && left < 8; ++bytes, ++left) state->padding |= ((uint64_t) *bytes) << (left * 8);\<close>
  The local \<open>left\<close> is a \<open>size_t\<close> that stays within 0..8, so it is a \<open>nat\<close> here.
  The result is the state with the final values of \<open>bytes\<close> and \<open>left\<close>.
\<close>

function c_siphash_append_leftover ::
  "pointer \<Rightarrow> int \<Rightarrow> CSipHash \<Rightarrow> int \<Rightarrow> nat \<Rightarrow> (CSipHash \<times> int \<times> nat) option" where
  "c_siphash_append_leftover buf e state bytes left =
     (if bytes < e \<and> left < 8 then
        (case deref buf bytes of
           None \<Rightarrow> None
         | Some b \<Rightarrow>
             c_siphash_append_leftover buf e
               (state\<lparr>padding := padding state OR push_bit (left * 8) (ucast b)\<rparr>)
               (bytes + 1) (left + 1))
      else Some (state, bytes, left))"
  by pat_completeness auto
termination
  by (relation "measure (\<lambda>(buf, e, state, bytes, left). nat (e - bytes))") auto

declare c_siphash_append_leftover.simps [simp del]

text \<open>
  The second loop:
  \<open>for ( ; bytes < end; bytes += 8) { m = read_le64(bytes); v3 ^= m; round; round; v0 ^= m; }\<close>
\<close>

function c_siphash_append_words ::
  "pointer \<Rightarrow> int \<Rightarrow> CSipHash \<Rightarrow> int \<Rightarrow> (CSipHash \<times> int) option" where
  "c_siphash_append_words buf e state bytes =
     (if bytes < e then
        (case c_siphash_read_le64 buf bytes of
           None \<Rightarrow> None
         | Some m \<Rightarrow>
             (let state = state\<lparr>v3 := v3 state XOR m\<rparr>;
                  state = c_siphash_sipround state;
                  state = c_siphash_sipround state;
                  state = state\<lparr>v0 := v0 state XOR m\<rparr>
              in c_siphash_append_words buf e state (bytes + 8)))
      else Some (state, bytes))"
  by pat_completeness auto
termination
  by (relation "measure (\<lambda>(buf, e, state, bytes). nat (e - bytes))") auto

declare c_siphash_append_words.simps [simp del]

text \<open>
  The \<open>switch (left)\<close> with its fall-through labels: label \<open>k + 1\<close> executes
  \<open>state->padding |= ((uint64_t) bytes[k]) << (8 * k)\<close> and falls through to label
  \<open>k\<close>; label 0 breaks. So label 7 reads \<open>bytes[6]\<close> (shift 48), then \<open>bytes[5]\<close>
  (shift 40), down to \<open>bytes[0]\<close> (shift 0).
\<close>

fun c_siphash_append_case :: "nat \<Rightarrow> pointer \<Rightarrow> int \<Rightarrow> CSipHash \<Rightarrow> CSipHash option" where
  "c_siphash_append_case 0 buf bytes state = Some state"
| "c_siphash_append_case (Suc k) buf bytes state =
     (case deref buf (bytes + int k) of
        None \<Rightarrow> None
      | Some b \<Rightarrow>
          c_siphash_append_case k buf bytes
            (state\<lparr>padding := padding state OR push_bit (8 * k) (ucast b)\<rparr>))"

text \<open>The switch has the labels 0 to 7 and no default.\<close>

definition c_siphash_append_switch :: "pointer \<Rightarrow> int \<Rightarrow> CSipHash \<Rightarrow> nat \<Rightarrow> CSipHash option" where
  "c_siphash_append_switch buf bytes state left =
     (if left \<le> 7 then c_siphash_append_case left buf bytes state else Some state)"

text \<open>
  The function from \<open>end -= (state->n_bytes % sizeof(uint64_t))\<close> to its end, entered
  with the current values of \<open>end\<close> and \<open>bytes\<close>.
\<close>

definition c_siphash_append_aligned :: "pointer \<Rightarrow> int \<Rightarrow> CSipHash \<Rightarrow> int \<Rightarrow> CSipHash option" where
  "c_siphash_append_aligned buf e state bytes =
     (let e = e - int (unat (n_bytes state mod 8)) in
      case c_siphash_append_words buf e state bytes of
        None \<Rightarrow> None
      | Some (state, bytes) \<Rightarrow>
          (let left = unat (n_bytes state AND 7)
           in c_siphash_append_switch buf bytes state left))"

text \<open>
  \<open>c_siphash_append(state, bytes, n_bytes)\<close>. Offsets are relative to the argument
  \<open>bytes\<close>, so \<open>bytes\<close> starts at 0 and \<open>end = bytes + n_bytes\<close> at \<open>n\<close>; the length is
  a \<open>size_t\<close>, 64 bits wide like the count. Computing and comparing pointers never
  faults (\<open>test_api\<close> passes the null pointer with length 0); the result is \<open>None\<close>
  exactly when a dereference faults. The early \<open>return\<close> is the branch \<open>Some state\<close>.
\<close>

definition c_siphash_append :: "CSipHash \<Rightarrow> pointer \<Rightarrow> u64 \<Rightarrow> CSipHash option" where
  "c_siphash_append state0 buf n =
     (let e = int (unat n);
          left = unat (n_bytes state0 AND 7);
          state = state0\<lparr>n_bytes := n_bytes state0 + n\<rparr>
      in if left > 0 then
           (case c_siphash_append_leftover buf e state 0 left of
              None \<Rightarrow> None
            | Some (state, bytes, left) \<Rightarrow>
                if bytes = e \<and> left < 8 then Some state
                else
                  (let state = state\<lparr>v3 := v3 state XOR padding state\<rparr>;
                       state = c_siphash_sipround state;
                       state = c_siphash_sipround state;
                       state = state\<lparr>v0 := v0 state XOR padding state\<rparr>;
                       state = state\<lparr>padding := 0\<rparr>
                   in c_siphash_append_aligned buf e state bytes))
         else c_siphash_append_aligned buf e state 0)"

definition c_siphash_finalize :: "CSipHash \<Rightarrow> u64" where
  "c_siphash_finalize state0 =
     (let b = padding state0 OR push_bit 56 (n_bytes state0);
          state = state0\<lparr>v3 := v3 state0 XOR b\<rparr>;
          state = c_siphash_sipround state;
          state = c_siphash_sipround state;
          state = state\<lparr>v0 := v0 state XOR b\<rparr>;
          state = state\<lparr>v2 := v2 state XOR 0xff\<rparr>;
          state = c_siphash_sipround state;
          state = c_siphash_sipround state;
          state = c_siphash_sipround state;
          state = c_siphash_sipround state
      in v0 state XOR v1 state XOR v2 state XOR v3 state)"

definition c_siphash_hash :: "pointer \<Rightarrow> pointer \<Rightarrow> u64 \<Rightarrow> u64 option" where
  "c_siphash_hash seed buf n = do {
     state \<leftarrow> c_siphash_init seed;
     state \<leftarrow> c_siphash_append state buf n;
     Some (c_siphash_finalize state)
   }"

section \<open>Notions used to state the properties\<close>

text \<open>
  The little-endian value of a run of bytes: byte \<open>i\<close> of the run sits at bit positions
  \<open>8 * i\<close> to \<open>8 * i + 7\<close>. Bytes from the ninth on fall off the 64-bit word.
\<close>

fun le_bytes :: "u8 list \<Rightarrow> u64" where
  "le_bytes [] = 0"
| "le_bytes (b # bs) = ucast b OR push_bit 8 (le_bytes bs)"

text \<open>
  The step applied to every 8-byte word \<open>m\<close>, as it appears three times in the
  source: \<open>v3 ^= m\<close>, two rounds, \<open>v0 ^= m\<close>.
\<close>

definition sip_compress :: "CSipHash \<Rightarrow> u64 \<Rightarrow> CSipHash" where
  "sip_compress s m =
     (c_siphash_sipround (c_siphash_sipround (s\<lparr>v3 := v3 s XOR m\<rparr>)))
       \<lparr>v0 := v0 (c_siphash_sipround (c_siphash_sipround (s\<lparr>v3 := v3 s XOR m\<rparr>))) XOR m\<rparr>"

text \<open>The complete 8-byte words of a run of bytes, in order; an incomplete tail is dropped.\<close>

function words_of :: "u8 list \<Rightarrow> u64 list" where
  "words_of xs = (if length xs < 8 then [] else le_bytes (take 8 xs) # words_of (drop 8 xs))"
  by pat_completeness auto
termination
  by (relation "measure length") auto

declare words_of.simps [simp del]

text \<open>
  What one call of \<open>c_siphash_append\<close> does to an arbitrary engine state, as a function of
  the bytes handed over: top up the pending word if there is one, compress the complete
  words, keep the tail.
\<close>

definition sip_absorb :: "CSipHash \<Rightarrow> u8 list \<Rightarrow> CSipHash" where
  "sip_absorb s xs =
     (let l = unat (n_bytes s) mod 8;
          s1 = s\<lparr>n_bytes := n_bytes s + of_nat (length xs)\<rparr>
      in if 0 < l \<and> length xs < 8 - l
         then s1\<lparr>padding := padding s OR push_bit (8 * l) (le_bytes xs)\<rparr>
         else
           (let k = (if 0 < l then 8 - l else 0);
                p = padding s OR push_bit (8 * l) (le_bytes (take k xs));
                s2 = (if 0 < l then (sip_compress (s1\<lparr>padding := p\<rparr>) p)\<lparr>padding := 0\<rparr> else s1);
                rest = drop k xs;
                s3 = foldl sip_compress s2 (words_of rest)
            in s3\<lparr>padding := padding s3 OR le_bytes (drop (8 * (length rest div 8)) rest)\<rparr>))"

text \<open>
  The engine state that stands for a message \<open>M\<close> absorbed so far, starting from the
  lanes of \<open>b\<close>: the complete words of \<open>M\<close> are compressed, the tail of
  \<open>length M mod 8\<close> bytes is pending, and the count is the length of \<open>M\<close>.
\<close>

definition sip_state :: "CSipHash \<Rightarrow> u8 list \<Rightarrow> CSipHash" where
  "sip_state b M =
     (foldl sip_compress b (words_of M))
       \<lparr>padding := le_bytes (drop (8 * (length M div 8)) M), n_bytes := of_nat (length M)\<rparr>"

text \<open>
  A caller's sequence of \<open>c_siphash_append\<close> calls on one engine, each with its buffer
  and its length; the bytes a call hands over; and the call that appends a whole chunk.
\<close>

fun c_siphash_appends :: "CSipHash \<Rightarrow> (pointer \<times> u64) list \<Rightarrow> CSipHash option" where
  "c_siphash_appends state [] = Some state"
| "c_siphash_appends state ((buf, n) # calls) =
     (case c_siphash_append state buf n of
        None \<Rightarrow> None
      | Some state \<Rightarrow> c_siphash_appends state calls)"

definition appended :: "pointer \<times> u64 \<Rightarrow> u8 list" where
  "appended call = take (unat (snd call)) (readable (fst call))"

definition chunk_call :: "u8 list \<Rightarrow> pointer \<times> u64" where
  "chunk_call c = (Ptr c, of_nat (length c))"

text \<open>The seed of \<open>test_api\<close>: the ASCII bytes of \<open>0123456789abcdef\<close>.\<close>

definition test_api_seed :: pointer where
  "test_api_seed = Ptr (map (of_nat \<circ> of_char) ''0123456789abcdef'')"

section \<open>Words and bytes\<close>

lemma unat_mod_8: "unat ((w :: u64) mod 8) = unat w mod 8"
  by (simp add: unat_mod)

lemma unat_and_7: "unat ((w :: u64) AND 7) = unat w mod 8"
proof -
  have a: "w AND 7 = take_bit 3 w" by (simp add: take_bit_eq_mask mask_numeral)
  have b: "unat (take_bit 3 w) = unat w mod 8"
    by (simp add: unsigned_take_bit_eq take_bit_eq_mod unat_mod_8)
  show ?thesis unfolding a b ..
qed

lemma unat_add_mod_8: "unat ((a :: u64) + b) mod 8 = (unat a + unat b) mod 8"
proof -
  have "unat (a + b) = (unat a + unat b) mod 2 ^ 64"
    by (simp add: unat_word_ariths)
  moreover have "(8::nat) dvd 2 ^ 64" by simp
  ultimately show ?thesis by (simp only: mod_mod_cancel)
qed

lemma unat_of_nat_mod_8: "unat (of_nat n :: u64) mod 8 = n mod 8"
proof -
  have "unat (of_nat n :: u64) = n mod 2 ^ 64" by (simp add: unat_of_nat)
  moreover have "(8::nat) dvd 2 ^ 64" by simp
  ultimately show ?thesis by (simp only: mod_mod_cancel)
qed

lemma rotate_left_rotl:
  assumes "0 < unat b" "unat b < 64"
  shows "c_siphash_rotate_left x b = word_rotl (unat b) x"
proof (rule bit_word_eqI)
  fix n assume "n < LENGTH(64)"
  then have n: "n < 64" by simp
  have rot: "bit (word_rotl (unat b) x) n = bit x ((n + (64 - unat b)) mod 64)"
    using n assms by (simp add: bit_word_rotl_iff)
  have lhs: "bit (c_siphash_rotate_left x b) n = (unat b \<le> n \<and> bit x (n - unat b) \<or> bit x (64 - unat b + n))"
    using n by (simp add: c_siphash_rotate_left_def bit_or_iff bit_push_bit_iff bit_drop_bit_eq)
  show "bit (c_siphash_rotate_left x b) n = bit (word_rotl (unat b) x) n"
  proof (cases "n < unat b")
    case True
    with assms n have "(n + (64 - unat b)) mod 64 = 64 - unat b + n" by simp
    with True show ?thesis unfolding lhs rot by simp
  next
    case False
    with assms n have "(n + (64 - unat b)) mod 64 = n - unat b"
      by (simp add: mod_if)
    moreover from False assms n have "\<not> bit x (64 - unat b + n)"
      by (auto dest: bit_imp_le_length)
    ultimately show ?thesis using False unfolding lhs rot by simp
  qed
qed

lemma deref_readable:
  "deref buf (int i) = (if i < length (readable buf) then Some (readable buf ! i) else None)"
  by (cases buf) (simp_all add: deref_def)

lemma le_bytes_append:
  "le_bytes (as @ bs) = le_bytes as OR push_bit (8 * length as) (le_bytes bs)"
  by (induction as) (simp_all add: push_bit_or push_bit_push_bit ac_simps)

lemma bit_le_bytes:
  "bit (le_bytes T) n \<longleftrightarrow> n < 64 \<and> n div 8 < length T \<and> bit (T ! (n div 8)) (n mod 8)"
proof (induction T arbitrary: n)
  case Nil
  show ?case by simp
next
  case (Cons b bs)
  show ?case
  proof (cases "n < 8")
    case True
    then show ?thesis
      by (simp add: bit_or_iff bit_push_bit_iff bit_ucast_iff)
  next
    case False
    then have d: "n div 8 = Suc ((n - 8) div 8)" "(n - 8) mod 8 = n mod 8"
      by (simp_all add: le_div_geq le_mod_geq)
    have nb: "\<not> bit b n" using False by (auto dest: bit_imp_le_length)
    show ?thesis
      using False nb
      by (auto simp add: bit_or_iff bit_push_bit_iff bit_ucast_iff Cons.IH d)
  qed
qed

lemma le_bytes_byte:
  assumes "i < length T" "length T \<le> 8"
  shows "ucast (drop_bit (8 * i) (le_bytes T)) = (T ! i :: u8)"
proof (rule bit_word_eqI)
  fix n assume "n < LENGTH(8)"
  then have n: "n < 8" by simp
  then have dm: "(8 * i + n) div 8 = i" "(8 * i + n) mod 8 = n" by simp_all
  from assms n have "8 * i + n < 64" by simp
  then show "bit (ucast (drop_bit (8 * i) (le_bytes T)) :: u8) n = bit (T ! i) n"
    using n assms by (simp add: bit_ucast_iff bit_drop_bit_eq bit_le_bytes dm)
qed

lemma le_bytes_high_zero: "drop_bit (8 * length T) (le_bytes T) = 0"
proof (rule bit_word_eqI)
  fix n
  have "\<not> (8 * length T + n) div 8 < length T" by simp
  then show "bit (drop_bit (8 * length T) (le_bytes T)) n = bit (0 :: u64) n"
    by (simp add: bit_drop_bit_eq bit_le_bytes)
qed

lemma le_bytes_horner: "le_bytes bs = word_of_nat (horner_sum unat 256 bs)"
proof (induction bs)
  case Nil
  show ?case by simp
next
  case (Cons b bs)
  have disj: "\<not> bit (ucast b :: u64) n \<or> \<not> bit (push_bit 8 (le_bytes bs)) n" for n
    by (auto simp add: bit_ucast_iff bit_push_bit_iff dest: bit_imp_le_length)
  have "le_bytes (b # bs) = ucast b + push_bit 8 (le_bytes bs)"
    using disjunctive_add [OF disj] by simp
  also have "\<dots> = word_of_nat (unat b) + 256 * word_of_nat (horner_sum unat 256 bs)"
    by (simp add: push_bit_eq_mult Cons.IH)
  finally show ?case by simp
qed

lemma le_bytes_take8_sum:
  assumes "p + 8 \<le> length xs"
  shows "le_bytes (take 8 (drop p xs)) = word_of_nat (\<Sum>i = 0..<8. unat (xs ! (p + i)) * 256 ^ i)"
proof -
  have l: "length (take 8 (drop p xs)) = 8" using assms by simp
  have "horner_sum unat 256 (take 8 (drop p xs)) =
        (\<Sum>i = 0..<8. unat (take 8 (drop p xs) ! i) * 256 ^ i)"
    unfolding horner_sum_eq_sum l ..
  also have "\<dots> = (\<Sum>i = 0..<8. unat (xs ! (p + i)) * 256 ^ i)"
    using assms by (intro sum.cong) simp_all
  finally show ?thesis by (simp only: le_bytes_horner)
qed

lemma take8_nth:
  assumes "8 \<le> length ys"
  shows "take 8 ys = [ys ! 0, ys ! 1, ys ! 2, ys ! 3, ys ! 4, ys ! 5, ys ! 6, ys ! 7]"
proof -
  have u: "[0..<8] = [0, 1, 2, 3, 4, 5, 6, 7 :: nat]"
    by (simp add: upt_rec)
  have "take 8 ys = take 8 (map ((!) ys) [0..<length ys])"
    by (simp only: map_nth)
  also have "\<dots> = map ((!) ys) (take 8 [0..<length ys])"
    by (rule take_map)
  also have "take 8 [0..<length ys] = [0..<8]"
    using assms by simp
  finally show ?thesis unfolding u by simp
qed

lemma read_le64_eq:
  assumes "p + 8 \<le> length (readable buf)"
  shows "c_siphash_read_le64 buf (int p) = Some (le_bytes (take 8 (drop p (readable buf))))"
proof -
  have d: "deref buf (int p + int k) = Some (readable buf ! (p + k))" if "k < 8" for k
    using that assms deref_readable [of buf "p + k"] by simp
  have t: "take 8 (drop p (readable buf)) =
      [readable buf ! (p + 0), readable buf ! (p + 1), readable buf ! (p + 2), readable buf ! (p + 3),
       readable buf ! (p + 4), readable buf ! (p + 5), readable buf ! (p + 6), readable buf ! (p + 7)]"
    using assms take8_nth [of "drop p (readable buf)"] by simp
  show ?thesis
    unfolding c_siphash_read_le64_def t
    using d [of 0] d [of 1] d [of 2] d [of 3] d [of 4] d [of 5] d [of 6] d [of 7]
    by (simp add: push_bit_or push_bit_push_bit ac_simps)
qed

section \<open>The rounds leave the pending word and the count alone\<close>

lemma sipround_frame [simp]:
  "padding (c_siphash_sipround s) = padding s" "n_bytes (c_siphash_sipround s) = n_bytes s"
  by (simp_all add: c_siphash_sipround_def Let_def)

lemma sip_compress_frame [simp]:
  "padding (sip_compress s m) = padding s" "n_bytes (sip_compress s m) = n_bytes s"
  by (simp_all add: sip_compress_def)

lemma foldl_sip_compress_frame [simp]:
  "padding (foldl sip_compress s ws) = padding s" "n_bytes (foldl sip_compress s ws) = n_bytes s"
  by (induction ws arbitrary: s) simp_all

lemma sip_compress_padding_update:
  "sip_compress (s\<lparr>padding := p\<rparr>) m = (sip_compress s m)\<lparr>padding := p\<rparr>"
  by (simp add: sip_compress_def c_siphash_sipround_def Let_def)

lemma sip_compress_n_bytes_update:
  "sip_compress (s\<lparr>n_bytes := p\<rparr>) m = (sip_compress s m)\<lparr>n_bytes := p\<rparr>"
  by (simp add: sip_compress_def c_siphash_sipround_def Let_def)

lemma foldl_sip_compress_padding_update:
  "foldl sip_compress (s\<lparr>padding := p\<rparr>) ws = (foldl sip_compress s ws)\<lparr>padding := p\<rparr>"
  by (induction ws arbitrary: s) (simp_all add: sip_compress_padding_update)

lemma foldl_sip_compress_n_bytes_update:
  "foldl sip_compress (s\<lparr>n_bytes := p\<rparr>) ws = (foldl sip_compress s ws)\<lparr>n_bytes := p\<rparr>"
  by (induction ws arbitrary: s) (simp_all add: sip_compress_n_bytes_update)

section \<open>Splitting a run of bytes into words\<close>

lemma words_of_short [simp]: "length xs < 8 \<Longrightarrow> words_of xs = []"
  by (subst words_of.simps) simp

lemma words_of_step: "8 \<le> length xs \<Longrightarrow> words_of xs = le_bytes (take 8 xs) # words_of (drop 8 xs)"
  by (subst words_of.simps) simp

lemma words_of_8: "length xs = 8 \<Longrightarrow> words_of xs = [le_bytes xs]"
  by (subst words_of.simps) simp

lemma words_of_take_full: "words_of (take (8 * (length xs div 8)) xs) = words_of xs"
proof (induction xs rule: words_of.induct)
  case (1 xs)
  show ?case
  proof (cases "length xs < 8")
    case True
    then show ?thesis by simp
  next
    case False
    then have q: "length xs div 8 = Suc (length (drop 8 xs) div 8)"
      by (simp add: le_div_geq)
    have len: "8 \<le> length (take (8 * Suc (length (drop 8 xs) div 8)) xs)"
      using False by simp
    have t: "take 8 (take (8 * Suc (length (drop 8 xs) div 8)) xs) = take 8 xs"
      by (simp add: min_def)
    have d: "drop 8 (take (8 * Suc (length (drop 8 xs) div 8)) xs)
             = take (8 * (length (drop 8 xs) div 8)) (drop 8 xs)"
      by (simp add: drop_take)
    from False have ge: "8 \<le> length xs" by simp
    show ?thesis
      unfolding q words_of_step [OF len] t d words_of_step [OF ge]
      using 1 False by simp
  qed
qed

lemma words_of_append:
  "8 dvd length as \<Longrightarrow> words_of (as @ bs) = words_of as @ words_of bs"
proof (induction as rule: words_of.induct)
  case (1 as)
  show ?case
  proof (cases "length as < 8")
    case True
    with 1(2) have "as = []" by (auto elim!: dvdE)
    then show ?thesis by simp
  next
    case False
    then have ge: "8 \<le> length as" "8 \<le> length (as @ bs)" by simp_all
    from 1(2) ge have dv: "8 dvd length (drop 8 as)" by (simp add: dvd_diff_nat)
    have ih: "words_of (drop 8 as @ bs) = words_of (drop 8 as) @ words_of bs"
      using 1(1) False dv by simp
    show ?thesis
      unfolding words_of_step [OF ge(1)] words_of_step [OF ge(2)]
      using ge ih by simp
  qed
qed

section \<open>The three phases of append\<close>

lemma leftover_eq:
  assumes "e \<le> length (readable buf)" "k = min (e - p) (8 - l)"
  shows "c_siphash_append_leftover buf (int e) s (int p) l =
         Some (s\<lparr>padding := padding s OR push_bit (8 * l) (le_bytes (take k (drop p (readable buf))))\<rparr>,
               int (p + k), l + k)"
  using assms
proof (induction k arbitrary: p l s)
  case 0
  then have "\<not> (int p < int e \<and> l < 8)" by auto
  then show ?case by (subst c_siphash_append_leftover.simps) auto
next
  case (Suc k)
  then have c: "p < e" "l < 8" and k: "k = min (e - Suc p) (8 - Suc l)" by auto
  from c Suc.prems have d: "deref buf (int p) = Some (readable buf ! p)"
    by (simp add: deref_readable)
  have pl: "p < length (readable buf)" using c Suc.prems by simp
  have ih: "c_siphash_append_leftover buf (int e)
              (s\<lparr>padding := padding s OR push_bit (l * 8) (ucast (readable buf ! p))\<rparr>) (int (Suc p)) (Suc l) =
            Some (s\<lparr>padding := padding s OR push_bit (l * 8) (ucast (readable buf ! p))\<rparr>
                   \<lparr>padding := padding (s\<lparr>padding := padding s OR push_bit (l * 8) (ucast (readable buf ! p))\<rparr>)
                       OR push_bit (8 * Suc l) (le_bytes (take k (drop (Suc p) (readable buf))))\<rparr>,
                  int (Suc p + k), Suc l + k)"
    by (rule Suc.IH [OF Suc.prems(1) k])
  have tk: "take (Suc k) (drop p (readable buf)) = readable buf ! p # take k (drop (Suc p) (readable buf))"
    using pl by (simp add: Cons_nth_drop_Suc [symmetric])
  show ?case
    apply (subst c_siphash_append_leftover.simps)
    using c d ih
    apply (simp add: tk push_bit_or push_bit_push_bit ac_simps)
    done
qed

lemma words_eq:
  assumes "p + 8 * w \<le> length (readable buf)"
  shows "c_siphash_append_words buf (int (p + 8 * w)) s (int p) =
         Some (foldl sip_compress s (words_of (take (8 * w) (drop p (readable buf)))), int (p + 8 * w))"
  using assms
proof (induction w arbitrary: p s)
  case 0
  show ?case by (subst c_siphash_append_words.simps) simp
next
  case (Suc w)
  then have r: "c_siphash_read_le64 buf (int p) = Some (le_bytes (take 8 (drop p (readable buf))))"
    by (intro read_le64_eq) simp
  from Suc.prems have ih: "c_siphash_append_words buf (int ((p + 8) + 8 * w)) s' (int (p + 8)) =
      Some (foldl sip_compress s' (words_of (take (8 * w) (drop (p + 8) (readable buf)))), int ((p + 8) + 8 * w))" for s'
    by (intro Suc.IH) simp
  let ?xs = "readable buf"
  let ?m = "le_bytes (take 8 (drop p ?xs))"
  have e: "p + 8 * Suc w = (p + 8) + 8 * w" by simp
  have len: "8 \<le> length (take (8 * Suc w) (drop p ?xs))"
    using Suc.prems by simp
  have t: "take 8 (take (8 * Suc w) (drop p ?xs)) = take 8 (drop p ?xs)"
    by (simp add: min_def)
  have d: "drop 8 (take (8 * Suc w) (drop p ?xs)) = take (8 * w) (drop (p + 8) ?xs)"
    by (simp add: drop_take add.commute)
  have wo: "words_of (take (8 * Suc w) (drop p ?xs)) = ?m # words_of (take (8 * w) (drop (p + 8) ?xs))"
    using words_of_step [OF len] unfolding t d .
  have lt: "int p < int (p + 8 + 8 * w)" by simp
  have step: "c_siphash_append_words buf (int (p + 8 + 8 * w)) s (int p) =
              c_siphash_append_words buf (int (p + 8 + 8 * w)) (sip_compress s ?m) (int (p + 8))"
    by (subst c_siphash_append_words.simps) (simp add: r sip_compress_def Let_def)
  show ?case
    unfolding e wo step ih by simp
qed

lemma case_eq:
  assumes "p + k \<le> length (readable buf)"
  shows "c_siphash_append_case k buf (int p) s =
         Some (s\<lparr>padding := padding s OR le_bytes (take k (drop p (readable buf)))\<rparr>)"
  using assms
proof (induction k arbitrary: s)
  case 0
  show ?case by simp
next
  case (Suc k)
  then have d: "deref buf (int p + int k) = Some (readable buf ! (p + k))"
    using deref_readable [of buf "p + k"] by simp
  from Suc.prems have t: "take (Suc k) (drop p (readable buf)) = take k (drop p (readable buf)) @ [readable buf ! (p + k)]"
    by (simp add: take_Suc_conv_app_nth)
  from Suc.prems have l: "length (take k (drop p (readable buf))) = k" by simp
  from Suc show ?case
    by (simp add: d t le_bytes_append l or.assoc or.commute or.left_commute)
qed

lemma aligned_eq:
  assumes "k \<le> m" "m \<le> length (readable buf)" "unat (n_bytes s) mod 8 = (m - k) mod 8"
  shows "c_siphash_append_aligned buf (int m) s (int k) =
         Some ((foldl sip_compress s (words_of (take (m - k) (drop k (readable buf)))))
                \<lparr>padding := padding s OR
                   le_bytes (drop (8 * ((m - k) div 8)) (take (m - k) (drop k (readable buf))))\<rparr>)"
proof -
  let ?xs = "readable buf"
  let ?w = "(m - k) div 8"
  let ?r = "(m - k) mod 8"
  let ?rest = "take (m - k) (drop k ?xs)"
  have m: "m = k + 8 * ?w + ?r" using assms(1) by simp
  have r_le: "?r \<le> m - k" by (rule mod_less_eq_dividend)
  have dm: "8 * ?w + ?r = m - k" by simp
  from assms(1) r_le dm have mr: "m - ?r = k + 8 * ?w" by linarith
  from assms(1) r_le have "int m - int ?r = int (m - ?r)" by simp
  then have e: "int m - int (unat (n_bytes s mod 8)) = int (k + 8 * ?w)"
    unfolding mr by (simp add: unat_mod_8 assms(3))
  have w: "c_siphash_append_words buf (int (k + 8 * ?w)) s (int k) =
           Some (foldl sip_compress s (words_of (take (8 * ?w) (drop k ?xs))), int (k + 8 * ?w))"
    using assms m by (intro words_eq) linarith
  have lr: "length ?rest = m - k" using assms by simp
  have "take (8 * ?w) (drop k ?xs) = take (8 * (length ?rest div 8)) ?rest"
    unfolding lr by (simp add: min_def)
  then have wo: "words_of (take (8 * ?w) (drop k ?xs)) = words_of ?rest"
    by (simp only: words_of_take_full)
  have c: "c_siphash_append_case ?r buf (int (k + 8 * ?w)) s' =
         Some (s'\<lparr>padding := padding s' OR le_bytes (take ?r (drop (k + 8 * ?w) ?xs))\<rparr>)" for s'
    using assms m by (intro case_eq) linarith
  have dr: "drop (8 * ?w) ?rest = take ?r (drop (k + 8 * ?w) ?xs)"
  proof -
    have "m - k - 8 * ?w = ?r" by (simp add: minus_mult_div_eq_mod)
    then show ?thesis by (simp add: drop_take add.commute)
  qed
  have r7: "?r \<le> 7" by simp
  show ?thesis
    unfolding c_siphash_append_aligned_def Let_def e w
    using r7 by (simp add: c_siphash_append_switch_def unat_and_7 assms(3) c wo dr del: of_nat_add of_nat_mult)
qed

lemma append_eq:
  assumes "unat n \<le> length (readable buf)"
  shows "c_siphash_append s buf n = Some (sip_absorb s (take (unat n) (readable buf)))"
proof -
  let ?xs = "readable buf"
  let ?ys = "take (unat n) ?xs"
  let ?l = "unat (n_bytes s) mod 8"
  let ?s1 = "s\<lparr>n_bytes := n_bytes s + n\<rparr>"
  have ly: "length ?ys = unat n" using assms by simp
  have s1: "s\<lparr>n_bytes := n_bytes s + of_nat (length ?ys)\<rparr> = ?s1" unfolding ly by simp
  have nb: "unat (n_bytes ?s1) mod 8 = (?l + unat n) mod 8"
    by (simp add: unat_add_mod_8 mod_simps)
  show ?thesis
  proof (cases "0 < ?l")
    case False
    then have l0: "?l = 0" by simp
    have a: "c_siphash_append_aligned buf (int (unat n)) ?s1 (int 0) =
         Some ((foldl sip_compress ?s1 (words_of (take (unat n - 0) (drop 0 ?xs))))
                \<lparr>padding := padding ?s1 OR
                   le_bytes (drop (8 * ((unat n - 0) div 8)) (take (unat n - 0) (drop 0 ?xs)))\<rparr>)"
      using assms nb l0 by (intro aligned_eq) simp_all
    show ?thesis
      using l0 a
      by (simp add: c_siphash_append_def sip_absorb_def Let_def unat_and_7 ly del: length_take)
  next
    case True
    have l8: "?l < 8" by simp
    define k where "k = min (unat n - 0) (8 - ?l)"
    have lo: "c_siphash_append_leftover buf (int (unat n)) ?s1 (int 0) ?l =
         Some (?s1\<lparr>padding := padding ?s1 OR push_bit (8 * ?l) (le_bytes (take k (drop 0 ?xs)))\<rparr>,
               int (0 + k), ?l + k)"
      using assms k_def by (rule leftover_eq)
    show ?thesis
    proof (cases "unat n < 8 - ?l")
      case short: True
      then have k: "k = unat n" by (simp add: k_def)
      from short have "?l + unat n < 8" by simp
      with True short lo show ?thesis
        by (simp add: c_siphash_append_def sip_absorb_def Let_def unat_and_7 ly k del: length_take)
    next
      case long: False
      then have k: "k = 8 - ?l" by (simp add: k_def)
      with True l8 have lk: "?l + k = 8" by simp
      from long k have km: "k \<le> unat n" by simp
      let ?p = "padding s OR push_bit (8 * ?l) (le_bytes (take k ?xs))"
      let ?s2 = "(sip_compress (?s1\<lparr>padding := ?p\<rparr>) ?p)\<lparr>padding := 0\<rparr>"
      have nb2: "unat (n_bytes ?s2) mod 8 = (unat n - k) mod 8"
      proof -
        have "?l + unat n = 8 + (unat n - k)" using lk km by simp
        then show ?thesis using nb by simp
      qed
      have a: "c_siphash_append_aligned buf (int (unat n)) ?s2 (int k) =
         Some ((foldl sip_compress ?s2 (words_of (take (unat n - k) (drop k ?xs))))
                \<lparr>padding := padding ?s2 OR
                   le_bytes (drop (8 * ((unat n - k) div 8)) (take (unat n - k) (drop k ?xs)))\<rparr>)"
        using km assms nb2 by (rule aligned_eq)
      have tk: "take k ?ys = take k ?xs" using km by (simp add: min_def)
      have dk: "drop k ?ys = take (unat n - k) (drop k ?xs)" by (simp add: drop_take)
      have ldk: "length (drop k ?ys) = unat n - k" using ly by simp
      have flush: "(let state = ?s1\<lparr>padding := ?p\<rparr>;
               state = state\<lparr>v3 := v3 state XOR padding state\<rparr>;
               state = c_siphash_sipround state;
               state = c_siphash_sipround state;
               state = state\<lparr>v0 := v0 state XOR padding state\<rparr>;
               state = state\<lparr>padding := 0\<rparr>
           in c_siphash_append_aligned buf (int (unat n)) state (int k)) =
           c_siphash_append_aligned buf (int (unat n)) ?s2 (int k)"
        by (simp add: Let_def sip_compress_def)
      have c2: "(if 0 < ?l then 8 - ?l else 0) = k" using True k by simp
      have c1: "\<not> (length ?ys < 8 - ?l)" unfolding ly using long .
      have mk: "min k (unat n) = k" using km by simp
      have ldk2: "length (take (unat n - k) (drop k ?xs)) = unat n - k" using assms km by simp
      have abs: "sip_absorb s ?ys = (foldl sip_compress ?s2 (words_of (take (unat n - k) (drop k ?xs))))
                \<lparr>padding := padding ?s2 OR
                   le_bytes (drop (8 * ((unat n - k) div 8)) (take (unat n - k) (drop k ?xs)))\<rparr>"
        unfolding sip_absorb_def Let_def c2
        using True c1 by (simp add: tk dk ly mk ldk2 del: length_take of_nat_add)
      have "c_siphash_append s buf n = c_siphash_append_aligned buf (int (unat n)) ?s2 (int k)"
        unfolding flush [symmetric]
        using True lo lk
        by (simp add: c_siphash_append_def unat_and_7 Let_def)
      then show ?thesis unfolding a abs .
    qed
  qed
qed

section \<open>Appending to the state of a message\<close>

lemma sip_state_frame [simp]:
  "n_bytes (sip_state b M) = of_nat (length M)"
  "padding (sip_state b M) = le_bytes (drop (8 * (length M div 8)) M)"
  by (simp_all add: sip_state_def)

lemma sip_state_Nil: "padding b = 0 \<Longrightarrow> n_bytes b = 0 \<Longrightarrow> sip_state b [] = b"
  by (simp add: sip_state_def)

lemma sip_state_split:
  assumes "8 dvd length as"
  shows "sip_state b (as @ rs) =
         (foldl sip_compress (foldl sip_compress b (words_of as)) (words_of rs))
           \<lparr>padding := le_bytes (drop (8 * (length rs div 8)) rs),
            n_bytes := of_nat (length as + length rs)\<rparr>"
proof -
  from assms obtain q where q: "length as = 8 * q" by (auto elim: dvdE)
  have d: "8 * ((length as + length rs) div 8) = length as + 8 * (length rs div 8)"
    unfolding q by simp
  show ?thesis
    unfolding sip_state_def length_append d
    by (simp add: words_of_append [OF assms])
qed

lemma absorb_sip_state: "sip_absorb (sip_state b M) xs = sip_state b (M @ xs)"
proof -
  let ?l = "length M mod 8"
  let ?q = "length M div 8"
  let ?W = "take (8 * ?q) M"
  let ?T = "drop (8 * ?q) M"
  let ?n = "of_nat (length M) + of_nat (length xs) :: u64"
  have lT: "length ?T = ?l" by (simp add: minus_mult_div_eq_mod)
  have lW: "length ?W = 8 * ?q" by simp
  have dW: "8 dvd length ?W" unfolding lW by simp
  have M: "M = ?W @ ?T" by simp
  have l: "unat (n_bytes (sip_state b M)) mod 8 = ?l"
    by (simp add: unat_of_nat_mod_8)
  have wM: "words_of M = words_of ?W"
    by (simp only: words_of_take_full)
  show ?thesis
  proof (cases "0 < ?l \<and> length xs < 8 - ?l")
    case True
    have "length (?T @ xs) = ?l + length xs" unfolding length_append lT ..
    with True have lt8: "length (?T @ xs) < 8" by linarith
    then have w0: "words_of (?T @ xs) = []" by (rule words_of_short)
    have div0: "length (?T @ xs) div 8 = 0" using lt8 by simp
    have "sip_state b (M @ xs) = sip_state b (?W @ (?T @ xs))"
      by (simp only: append_assoc [symmetric] append_take_drop_id)
    also have "\<dots> = (foldl sip_compress (foldl sip_compress b (words_of ?W)) (words_of (?T @ xs)))
           \<lparr>padding := le_bytes (drop (8 * (length (?T @ xs) div 8)) (?T @ xs)),
            n_bytes := of_nat (length ?W + length (?T @ xs))\<rparr>"
      by (rule sip_state_split [OF dW])
    also have "\<dots> = (foldl sip_compress b (words_of M))
           \<lparr>padding := le_bytes (?T @ xs), n_bytes := ?n\<rparr>"
      unfolding w0 div0 wM by simp
    finally have rhs: "sip_state b (M @ xs) = (foldl sip_compress b (words_of M))
           \<lparr>padding := le_bytes (?T @ xs), n_bytes := ?n\<rparr>" .
    have lhs: "sip_absorb (sip_state b M) xs = (foldl sip_compress b (words_of M))
           \<lparr>padding := le_bytes ?T OR push_bit (8 * ?l) (le_bytes xs), n_bytes := ?n\<rparr>"
      unfolding sip_absorb_def Let_def l using True
      by (simp add: sip_state_def)
    show ?thesis unfolding lhs rhs le_bytes_append lT ..
  next
    case False
    define k where "k = (if 0 < ?l then 8 - ?l else 0)"
    have kx: "k \<le> length xs" using False by (auto simp: k_def)
    let ?A = "M @ take k xs"
    let ?R = "drop k xs"
    let ?p = "le_bytes ?T OR push_bit (8 * ?l) (le_bytes (take k xs))"
    have lA: "length ?A = length M + k" using kx by simp
    have dA: "8 dvd length ?A"
    proof -
      have "?l + k = 8 \<or> ?l + k = 0" by (auto simp: k_def)
      then have "8 dvd length M + k" by presburger
      then show ?thesis unfolding lA .
    qed
    have wA: "foldl sip_compress b (words_of ?A) =
          (if 0 < ?l then sip_compress (foldl sip_compress b (words_of M)) ?p
           else foldl sip_compress b (words_of M))"
    proof (cases "0 < ?l")
      case True
      then have k8: "k = 8 - ?l" by (simp add: k_def)
      have "length (?T @ take k xs) = 8" using lT kx k8 by simp
      then have w8: "words_of (?T @ take k xs) = [le_bytes (?T @ take k xs)]" by (rule words_of_8)
      have "words_of ?A = words_of (?W @ (?T @ take k xs))"
        by (simp only: append_assoc [symmetric] append_take_drop_id)
      also have "\<dots> = words_of ?W @ words_of (?T @ take k xs)"
        by (rule words_of_append [OF dW])
      finally have "words_of ?A = words_of M @ [le_bytes ?T OR push_bit (8 * ?l) (le_bytes (take k xs))]"
        unfolding w8 wM le_bytes_append lT .
      then show ?thesis using True by simp
    next
      case False
      then have "k = 0" by (simp add: k_def)
      then show ?thesis using False by simp
    qed
    have T0: "\<not> 0 < ?l \<Longrightarrow> le_bytes ?T = 0"
      using lT by simp
    have "sip_state b (M @ xs) = sip_state b (?A @ ?R)" by simp
    also have "\<dots> = (foldl sip_compress (foldl sip_compress b (words_of ?A)) (words_of ?R))
           \<lparr>padding := le_bytes (drop (8 * (length ?R div 8)) ?R),
            n_bytes := of_nat (length ?A + length ?R)\<rparr>"
      by (rule sip_state_split [OF dA])
    finally have rhs: "sip_state b (M @ xs) =
         (foldl sip_compress (foldl sip_compress b (words_of ?A)) (words_of ?R))
           \<lparr>padding := le_bytes (drop (8 * (length ?R div 8)) ?R), n_bytes := ?n\<rparr>"
      using kx by simp
    have lhs: "sip_absorb (sip_state b M) xs =
         (foldl sip_compress (foldl sip_compress b (words_of ?A)) (words_of ?R))
           \<lparr>padding := le_bytes (drop (8 * (length ?R div 8)) ?R), n_bytes := ?n\<rparr>"
      unfolding sip_absorb_def Let_def l k_def [symmetric] wA
      using False T0
      by (auto simp add: sip_state_def sip_compress_padding_update sip_compress_n_bytes_update
            foldl_sip_compress_padding_update foldl_sip_compress_n_bytes_update)
    show ?thesis unfolding lhs rhs ..
  qed
qed

lemma init_eq:
  assumes "16 \<le> length (readable sd)"
  shows "c_siphash_init sd =
     Some \<lparr> v0 = 0x736f6d6570736575 XOR le_bytes (take 8 (readable sd)),
            v1 = 0x646f72616e646f6d XOR le_bytes (take 8 (drop 8 (readable sd))),
            v2 = 0x6c7967656e657261 XOR le_bytes (take 8 (readable sd)),
            v3 = 0x7465646279746573 XOR le_bytes (take 8 (drop 8 (readable sd))),
            padding = 0, n_bytes = 0 \<rparr>"
proof -
  have a: "c_siphash_read_le64 sd (int 0) = Some (le_bytes (take 8 (drop 0 (readable sd))))"
    using assms by (intro read_le64_eq) simp
  have b: "c_siphash_read_le64 sd (int 8) = Some (le_bytes (take 8 (drop 8 (readable sd))))"
    using assms by (intro read_le64_eq) simp
  show ?thesis using a b by (simp add: c_siphash_init_def)
qed

lemma init_sip_state:
  assumes "16 \<le> length (readable sd)"
  shows "\<exists>b. c_siphash_init sd = Some (sip_state b [])"
proof -
  let ?b = "\<lparr> v0 = 0x736f6d6570736575 XOR le_bytes (take 8 (readable sd)),
            v1 = 0x646f72616e646f6d XOR le_bytes (take 8 (drop 8 (readable sd))),
            v2 = 0x6c7967656e657261 XOR le_bytes (take 8 (readable sd)),
            v3 = 0x7465646279746573 XOR le_bytes (take 8 (drop 8 (readable sd))),
            padding = 0, n_bytes = 0 \<rparr>"
  have "sip_state ?b [] = ?b" by (rule sip_state_Nil) simp_all
  with init_eq [OF assms] show ?thesis by metis
qed

lemma appends_sip_state:
  assumes "\<forall>call \<in> set calls. unat (snd call) \<le> length (readable (fst call))"
  shows "c_siphash_appends (sip_state b M) calls = Some (sip_state b (M @ concat (map appended calls)))"
  using assms
proof (induction calls arbitrary: M)
  case Nil
  show ?case by simp
next
  case (Cons call calls)
  obtain buf n where call: "call = (buf, n)" by (cases call)
  from Cons.prems call have le: "unat n \<le> length (readable buf)" by simp
  have "c_siphash_append (sip_state b M) buf n = Some (sip_state b (M @ appended call))"
    unfolding append_eq [OF le] absorb_sip_state by (simp add: appended_def call)
  moreover have "c_siphash_appends (sip_state b (M @ appended call)) calls =
      Some (sip_state b ((M @ appended call) @ concat (map appended calls)))"
    using Cons.prems by (intro Cons.IH) simp
  ultimately show ?case by (simp add: call)
qed

lemma chunk_call_ok:
  assumes "length c < 2 ^ 64"
  shows "unat (snd (chunk_call c)) \<le> length (readable (fst (chunk_call c)))"
    and "appended (chunk_call c) = c"
proof -
  from assms have "unat (of_nat (length c) :: u64) = length c"
    by (simp add: unat_of_nat)
  then show "unat (snd (chunk_call c)) \<le> length (readable (fst (chunk_call c)))"
    and "appended (chunk_call c) = c"
    by (simp_all add: chunk_call_def appended_def)
qed

lemma length_le_concat: "c \<in> set cs \<Longrightarrow> length c \<le> length (concat cs)"
  by (induction cs) auto

lemma chunk_calls_ok:
  assumes "length (concat chunks) < 2 ^ 64"
  shows "\<forall>call \<in> set (map chunk_call chunks). unat (snd call) \<le> length (readable (fst call))"
    and "concat (map appended (map chunk_call chunks)) = concat chunks"
proof -
  have lt: "length c < 2 ^ 64" if "c \<in> set chunks" for c
    using length_le_concat [OF that] assms by simp
  show "\<forall>call \<in> set (map chunk_call chunks). unat (snd call) \<le> length (readable (fst call))"
    using chunk_call_ok(1) [OF lt] by auto
  have "map appended (map chunk_call chunks) = chunks"
    using chunk_call_ok(2) [OF lt] by (simp add: map_idI)
  then show "concat (map appended (map chunk_call chunks)) = concat chunks" by simp
qed

section \<open>The claims\<close>

text \<open>
  C1. For a seed of 16 bytes and a buffer with \<open>n\<close> readable bytes (\<open>n\<close> may be 0),
  the one-shot \<open>c_siphash_hash\<close> returns exactly what \<open>c_siphash_init\<close> on a fresh state,
  one \<open>c_siphash_append\<close> of the buffer and \<open>c_siphash_finalize\<close> return, and all three
  steps do return.
\<close>

theorem hash_is_init_append_finalize:
  assumes "length (readable sd) = 16" and "unat n \<le> length (readable buf)"
  shows "c_siphash_hash sd buf n =
           (c_siphash_init sd \<bind> (\<lambda>s. c_siphash_append s buf n \<bind> (\<lambda>s. Some (c_siphash_finalize s))))
         \<and> (\<exists>s0 s1. c_siphash_init sd = Some s0 \<and> c_siphash_append s0 buf n = Some s1 \<and>
               c_siphash_hash sd buf n = Some (c_siphash_finalize s1))"
proof -
  from assms(1) have "16 \<le> length (readable sd)" by simp
  from init_eq [OF this] obtain s0 where s0: "c_siphash_init sd = Some s0" by blast
  from append_eq [OF assms(2)] obtain s1 where s1: "c_siphash_append s0 buf n = Some s1" by blast
  show ?thesis using s0 s1 by (simp add: c_siphash_hash_def)
qed

theorem hash_is_init_append_finalize_witness:
  "length (readable test_api_seed) = 16 \<and> unat (3 :: u64) \<le> length (readable (Ptr [1, 2, 3]))
   \<and> c_siphash_hash test_api_seed (Ptr [1, 2, 3]) 3 =
        (c_siphash_init test_api_seed \<bind>
           (\<lambda>s. c_siphash_append s (Ptr [1, 2, 3]) 3 \<bind> (\<lambda>s. Some (c_siphash_finalize s))))
   \<and> (\<exists>s0 s1. c_siphash_init test_api_seed = Some s0 \<and> c_siphash_append s0 (Ptr [1, 2, 3]) 3 = Some s1 \<and>
          c_siphash_hash test_api_seed (Ptr [1, 2, 3]) 3 = Some (c_siphash_finalize s1))
   \<and> c_siphash_hash test_api_seed (Ptr [1, 2, 3]) 3 = Some 17190031428770452655"
proof -
  have h1: "length (readable test_api_seed) = 16" by (simp add: test_api_seed_def)
  have h2: "unat (3 :: u64) \<le> length (readable (Ptr [1, 2, 3]))" by simp
  have e: "c_siphash_hash test_api_seed (Ptr [1, 2, 3]) 3 = Some 17190031428770452655"
    by code_simp
  from hash_is_init_append_finalize [OF h1 h2] h1 h2 e show ?thesis by blast
qed

text \<open>
  C2. For a seed of 16 bytes and a message \<open>M\<close> cut into chunks in any way (any number
  of chunks, empty and one-byte chunks included), init, one append per chunk, finalize
  returns the same hash as init, one append of \<open>M\<close>, finalize, and as
  \<open>c_siphash_hash\<close> on \<open>M\<close>. The length of \<open>M\<close> fits a \<open>size_t\<close>.
\<close>

theorem streaming_equivalence:
  assumes "length (readable sd) = 16" and "length (concat chunks) < 2 ^ 64"
  shows "\<exists>h. (c_siphash_init sd \<bind> (\<lambda>s. c_siphash_appends s (map chunk_call chunks) \<bind>
                  (\<lambda>s. Some (c_siphash_finalize s)))) = Some h
           \<and> (c_siphash_init sd \<bind> (\<lambda>s. c_siphash_append s (Ptr (concat chunks)) (of_nat (length (concat chunks))) \<bind>
                  (\<lambda>s. Some (c_siphash_finalize s)))) = Some h
           \<and> c_siphash_hash sd (Ptr (concat chunks)) (of_nat (length (concat chunks))) = Some h"
proof -
  let ?M = "concat chunks"
  from assms(1) have "16 \<le> length (readable sd)" by simp
  from init_sip_state [OF this] obtain b where b: "c_siphash_init sd = Some (sip_state b [])" ..
  have many: "c_siphash_appends (sip_state b []) (map chunk_call chunks) = Some (sip_state b ?M)"
    using appends_sip_state [OF chunk_calls_ok(1) [OF assms(2)], of b "[]"]
    by (simp only: chunk_calls_ok(2) [OF assms(2)] append_Nil)
  have "unat (snd (chunk_call ?M)) \<le> length (readable (fst (chunk_call ?M)))"
    and "appended (chunk_call ?M) = ?M"
    using chunk_call_ok [OF assms(2)] by simp_all
  then have one: "c_siphash_append (sip_state b []) (Ptr ?M) (of_nat (length ?M)) = Some (sip_state b ?M)"
    using append_eq [of "of_nat (length ?M)" "Ptr ?M" "sip_state b []"]
    by (simp add: chunk_call_def appended_def absorb_sip_state)
  show ?thesis
    using b many one by (simp add: c_siphash_hash_def)
qed

theorem streaming_equivalence_witness:
  "length (readable test_api_seed) = 16
   \<and> length (concat [[1, 2, 3], [], [4], [5, 6, 7, 8, 9, 10 :: u8]]) < 2 ^ 64
   \<and> (\<exists>h. (c_siphash_init test_api_seed \<bind>
               (\<lambda>s. c_siphash_appends s (map chunk_call [[1, 2, 3], [], [4], [5, 6, 7, 8, 9, 10]]) \<bind>
                  (\<lambda>s. Some (c_siphash_finalize s)))) = Some h
           \<and> (c_siphash_init test_api_seed \<bind>
               (\<lambda>s. c_siphash_append s (Ptr (concat [[1, 2, 3], [], [4], [5, 6, 7, 8, 9, 10]]))
                       (of_nat (length (concat [[1, 2, 3], [], [4], [5, 6, 7, 8, 9, 10 :: u8]]))) \<bind>
                  (\<lambda>s. Some (c_siphash_finalize s)))) = Some h
           \<and> c_siphash_hash test_api_seed (Ptr (concat [[1, 2, 3], [], [4], [5, 6, 7, 8, 9, 10]]))
                (of_nat (length (concat [[1, 2, 3], [], [4], [5, 6, 7, 8, 9, 10 :: u8]]))) = Some h)
   \<and> c_siphash_hash test_api_seed (Ptr [1, 2, 3, 4, 5, 6, 7, 8, 9, 10]) 10 = Some 10859972016471829692"
proof -
  have h1: "length (readable test_api_seed) = 16" by (simp add: test_api_seed_def)
  have h2: "length (concat [[1, 2, 3], [], [4], [5, 6, 7, 8, 9, 10 :: u8]]) < 2 ^ 64" by simp
  have e: "c_siphash_hash test_api_seed (Ptr [1, 2, 3, 4, 5, 6, 7, 8, 9, 10]) 10 = Some 10859972016471829692"
    by code_simp
  from streaming_equivalence [OF h1 h2] h1 h2 e show ?thesis by blast
qed

text \<open>
  C3. \<open>c_siphash_finalize\<close> forms the block \<open>b = padding | (n_bytes << 56)\<close>, does
  \<open>v3 ^= b\<close>, two rounds, \<open>v0 ^= b\<close>, then \<open>v2 ^= 0xff\<close>, then four rounds, and returns
  \<open>v0 ^ v1 ^ v2 ^ v3\<close>. Only the low 8 bits of the count enter \<open>b\<close>; the low 7 bytes of
  \<open>b\<close> are those of the pending word, and the top byte is the top byte of the pending word
  or-ed with the low byte of the count.
\<close>

theorem finalize_spec:
  "c_siphash_finalize s =
     (let b = padding s OR push_bit 56 (n_bytes s);
          t = sip_compress s b;
          t = t\<lparr>v2 := v2 t XOR 0xff\<rparr>;
          t = c_siphash_sipround (c_siphash_sipround (c_siphash_sipround (c_siphash_sipround t)))
      in v0 t XOR v1 t XOR v2 t XOR v3 t)
   \<and> push_bit 56 (n_bytes s) = push_bit 56 (take_bit 8 (n_bytes s))
   \<and> take_bit 56 (padding s OR push_bit 56 (n_bytes s)) = take_bit 56 (padding s)
   \<and> drop_bit 56 (padding s OR push_bit 56 (n_bytes s)) = drop_bit 56 (padding s) OR take_bit 8 (n_bytes s)"
proof (intro conjI)
  show "c_siphash_finalize s =
     (let b = padding s OR push_bit 56 (n_bytes s);
          t = sip_compress s b;
          t = t\<lparr>v2 := v2 t XOR 0xff\<rparr>;
          t = c_siphash_sipround (c_siphash_sipround (c_siphash_sipround (c_siphash_sipround t)))
      in v0 t XOR v1 t XOR v2 t XOR v3 t)"
    by (simp add: c_siphash_finalize_def sip_compress_def Let_def)
  show "push_bit 56 (n_bytes s) = push_bit 56 (take_bit 8 (n_bytes s))"
    by (rule bit_word_eqI) (auto simp add: bit_push_bit_iff bit_take_bit_iff)
  show "take_bit 56 (padding s OR push_bit 56 (n_bytes s)) = take_bit 56 (padding s)"
    by (rule bit_word_eqI) (auto simp add: bit_push_bit_iff bit_take_bit_iff bit_or_iff)
  show "drop_bit 56 (padding s OR push_bit 56 (n_bytes s)) = drop_bit 56 (padding s) OR take_bit 8 (n_bytes s)"
    by (rule bit_word_eqI) (auto simp add: bit_push_bit_iff bit_take_bit_iff bit_or_iff bit_drop_bit_eq dest: bit_imp_le_length)
qed

text \<open>
  C4. For a seed of 16 bytes, \<open>c_siphash_init\<close> returns the state with
  \<open>v0 = 0x736f6d6570736575 ^ k0\<close>, \<open>v1 = 0x646f72616e646f6d ^ k1\<close>,
  \<open>v2 = 0x6c7967656e657261 ^ k0\<close>, \<open>v3 = 0x7465646279746573 ^ k1\<close>, no pending bytes
  and count 0, where \<open>k0\<close> is the little-endian value of seed bytes 0 to 7 (byte \<open>i\<close>
  weighs \<open>256 ^ i\<close>) and \<open>k1\<close> that of seed bytes 8 to 15.
\<close>

theorem init_spec:
  assumes "length sd = 16"
  shows "let k0 = word_of_nat (\<Sum>i = 0..<8. unat (sd ! i) * 256 ^ i);
             k1 = word_of_nat (\<Sum>i = 0..<8. unat (sd ! (8 + i)) * 256 ^ i)
         in c_siphash_init (Ptr sd) =
              Some \<lparr> v0 = 0x736f6d6570736575 XOR k0,
                     v1 = 0x646f72616e646f6d XOR k1,
                     v2 = 0x6c7967656e657261 XOR k0,
                     v3 = 0x7465646279746573 XOR k1,
                     padding = 0,
                     n_bytes = 0 \<rparr>"
proof -
  have k0: "le_bytes (take 8 sd) = word_of_nat (\<Sum>i = 0..<8. unat (sd ! i) * 256 ^ i)"
    using le_bytes_take8_sum [of 0 sd] assms by simp
  have k1: "le_bytes (take 8 (drop 8 sd)) = word_of_nat (\<Sum>i = 0..<8. unat (sd ! (8 + i)) * 256 ^ i)"
    using le_bytes_take8_sum [of 8 sd] assms by simp
  have "16 \<le> length (readable (Ptr sd))" using assms by simp
  from init_eq [OF this] show ?thesis
    unfolding Let_def readable.simps k0 k1 .
qed

theorem init_spec_witness:
  "length [0x30, 0x31, 0x32, 0x33, 0x34, 0x35, 0x36, 0x37, 0x38, 0x39, 0x61, 0x62, 0x63, 0x64, 0x65, 0x66 :: u8] = 16
   \<and> (let k0 = word_of_nat (\<Sum>i = 0..<8. unat ([0x30, 0x31, 0x32, 0x33, 0x34, 0x35, 0x36, 0x37, 0x38, 0x39,
                                               0x61, 0x62, 0x63, 0x64, 0x65, 0x66 :: u8] ! i) * 256 ^ i);
            k1 = word_of_nat (\<Sum>i = 0..<8. unat ([0x30, 0x31, 0x32, 0x33, 0x34, 0x35, 0x36, 0x37, 0x38, 0x39,
                                               0x61, 0x62, 0x63, 0x64, 0x65, 0x66 :: u8] ! (8 + i)) * 256 ^ i)
        in c_siphash_init (Ptr [0x30, 0x31, 0x32, 0x33, 0x34, 0x35, 0x36, 0x37, 0x38, 0x39,
                                0x61, 0x62, 0x63, 0x64, 0x65, 0x66]) =
              Some \<lparr> v0 = 0x736f6d6570736575 XOR k0,
                     v1 = 0x646f72616e646f6d XOR k1,
                     v2 = 0x6c7967656e657261 XOR k0,
                     v3 = 0x7465646279746573 XOR k1,
                     padding = 0,
                     n_bytes = 0 \<rparr>)
   \<and> c_siphash_init (Ptr [0x30, 0x31, 0x32, 0x33, 0x34, 0x35, 0x36, 0x37, 0x38, 0x39,
                           0x61, 0x62, 0x63, 0x64, 0x65, 0x66]) =
       Some \<lparr> v0 = 0x736f6d6570736575 XOR 0x3736353433323130,
              v1 = 0x646f72616e646f6d XOR 0x6665646362613938,
              v2 = 0x6c7967656e657261 XOR 0x3736353433323130,
              v3 = 0x7465646279746573 XOR 0x6665646362613938,
              padding = 0,
              n_bytes = 0 \<rparr>"
proof -
  have h: "length [0x30, 0x31, 0x32, 0x33, 0x34, 0x35, 0x36, 0x37, 0x38, 0x39,
                   0x61, 0x62, 0x63, 0x64, 0x65, 0x66 :: u8] = 16"
    by simp
  have e: "c_siphash_init (Ptr [0x30, 0x31, 0x32, 0x33, 0x34, 0x35, 0x36, 0x37, 0x38, 0x39,
                                0x61, 0x62, 0x63, 0x64, 0x65, 0x66]) =
       Some \<lparr> v0 = 0x736f6d6570736575 XOR 0x3736353433323130,
              v1 = 0x646f72616e646f6d XOR 0x6665646362613938,
              v2 = 0x6c7967656e657261 XOR 0x3736353433323130,
              v3 = 0x7465646279746573 XOR 0x6665646362613938,
              padding = 0,
              n_bytes = 0 \<rparr>"
    by code_simp
  from init_spec [OF h] h e show ?thesis by blast
qed

text \<open>
  C5. One round is, in this order, \<open>v0 += v1; v1 = rotl(v1, 13); v1 ^= v0; v0 = rotl(v0, 32);
  v2 += v3; v3 = rotl(v3, 16); v3 ^= v2; v0 += v3; v3 = rotl(v3, 21); v3 ^= v0; v2 += v1;
  v1 = rotl(v1, 17); v1 ^= v2; v2 = rotl(v2, 32)\<close>, with addition modulo \<open>2 ^ 64\<close> and
  \<open>rotl\<close> the 64-bit left rotation; the pending word and the count are untouched.
\<close>

theorem sipround_spec:
  "c_siphash_sipround s =
    (let a0 = v0 s + v1 s;
         a1 = word_rotl 13 (v1 s) XOR a0;
         b0 = word_rotl 32 a0;
         a2 = v2 s + v3 s;
         a3 = word_rotl 16 (v3 s) XOR a2;
         c0 = b0 + a3;
         b3 = word_rotl 21 a3 XOR c0;
         b2 = a2 + a1;
         b1 = word_rotl 17 a1 XOR b2;
         c2 = word_rotl 32 b2
     in s\<lparr>v0 := c0, v1 := b1, v2 := c2, v3 := b3\<rparr>)"
  using rotate_left_rotl [of 13] rotate_left_rotl [of 32] rotate_left_rotl [of 16]
    rotate_left_rotl [of 21] rotate_left_rotl [of 17]
  by (simp add: c_siphash_sipround_def Let_def)

text \<open>
  C6. After \<open>c_siphash_init\<close> and any sequence of \<open>c_siphash_append\<close> calls (each on a
  buffer with as many readable bytes as its length says), with \<open>M\<close> the bytes appended so
  far and \<open>r = length M mod 8\<close>: the count is the length of \<open>M\<close> (modulo \<open>2 ^ 64\<close>),
  its remainder modulo 8 is \<open>r\<close>, the pending word holds exactly the last \<open>r\<close> bytes of
  \<open>M\<close>, the \<open>i\<close>-th of them at bits \<open>8 * i\<close> to \<open>8 * i + 7\<close>, every higher byte is
  zero, and when \<open>r = 0\<close> the pending word is 0.
\<close>

theorem pending_invariant:
  assumes "length (readable sd) = 16"
    and "\<forall>call \<in> set calls. unat (snd call) \<le> length (readable (fst call))"
  shows "\<exists>s. (c_siphash_init sd \<bind> (\<lambda>s. c_siphash_appends s calls)) = Some s \<and>
           (let M = concat (map appended calls); r = length M mod 8 in
              n_bytes s = of_nat (length M) \<and>
              unat (n_bytes s) mod 8 = r \<and>
              padding s = le_bytes (drop (length M - r) M) \<and>
              (\<forall>i < r. ucast (drop_bit (8 * i) (padding s)) = M ! (length M - r + i)) \<and>
              drop_bit (8 * r) (padding s) = 0 \<and>
              (r = 0 \<longrightarrow> padding s = 0))"
proof -
  let ?M = "concat (map appended calls)"
  let ?r = "length ?M mod 8"
  let ?T = "drop (length ?M - ?r) ?M"
  from assms(1) have "16 \<le> length (readable sd)" by simp
  from init_sip_state [OF this] obtain b where b: "c_siphash_init sd = Some (sip_state b [])" ..
  have run: "(c_siphash_init sd \<bind> (\<lambda>s. c_siphash_appends s calls)) = Some (sip_state b ?M)"
    using b appends_sip_state [OF assms(2), of b "[]"] by simp
  have off: "8 * (length ?M div 8) = length ?M - ?r"
    by (simp add: minus_mod_eq_mult_div)
  have lT: "length ?T = ?r" by simp
  have pad: "padding (sip_state b ?M) = le_bytes ?T"
    unfolding sip_state_frame off ..
  have cnt: "unat (n_bytes (sip_state b ?M)) mod 8 = ?r"
    by (simp add: unat_of_nat_mod_8)
  have bytes: "ucast (drop_bit (8 * i) (le_bytes ?T)) = ?M ! (length ?M - ?r + i)" if "i < ?r" for i
  proof -
    have "ucast (drop_bit (8 * i) (le_bytes ?T)) = ?T ! i"
      using that lT by (intro le_bytes_byte) simp_all
    also have "\<dots> = ?M ! (length ?M - ?r + i)"
      using that by simp
    finally show ?thesis .
  qed
  have high: "drop_bit (8 * ?r) (le_bytes ?T) = 0"
    using le_bytes_high_zero [of ?T] unfolding lT .
  have zero: "?r = 0 \<Longrightarrow> le_bytes ?T = 0" by simp
  show ?thesis
    unfolding run Let_def
    using pad cnt bytes high zero by (intro exI [of _ "sip_state b ?M"]) simp
qed

theorem pending_invariant_witness:
  "length (readable test_api_seed) = 16
   \<and> unat (3 :: u64) \<le> length (readable (Ptr [1, 2, 3, 4, 5]))
   \<and> unat (0 :: u64) \<le> length (readable NULL)
   \<and> unat (8 :: u64) \<le> length (readable (Ptr [6, 7, 8, 9, 10, 11, 12, 13]))
   \<and> (\<exists>s. (c_siphash_init test_api_seed \<bind>
               (\<lambda>s. c_siphash_appends s
                  [(Ptr [1, 2, 3, 4, 5], 3), (NULL, 0), (Ptr [6, 7, 8, 9, 10, 11, 12, 13], 8)])) = Some s
          \<and> n_bytes s = 11
          \<and> unat (n_bytes s) mod 8 = 3
          \<and> padding s = le_bytes [11, 12, 13]
          \<and> ucast (drop_bit 0 (padding s)) = (11 :: u8)
          \<and> ucast (drop_bit 8 (padding s)) = (12 :: u8)
          \<and> ucast (drop_bit 16 (padding s)) = (13 :: u8)
          \<and> drop_bit 24 (padding s) = 0)
   \<and> (c_siphash_init test_api_seed \<bind>
         (\<lambda>s. c_siphash_appends s
            [(Ptr [1, 2, 3, 4, 5], 3), (NULL, 0), (Ptr [6, 7, 8, 9, 10, 11, 12, 13], 8)])) =
       Some \<lparr>v0 = 11977409501488162279, v1 = 5273709749861378104, v2 = 1242041831145962474,
              v3 = 9287218624430001449, padding = 0x0D0C0B, n_bytes = 11\<rparr>"
proof -
  let ?calls = "[(Ptr [1, 2, 3, 4, 5], 3 :: u64), (NULL, 0), (Ptr [6, 7, 8, 9, 10, 11, 12, 13], 8)]"
  have h1: "length (readable test_api_seed) = 16" by (simp add: test_api_seed_def)
  have h2: "\<forall>call \<in> set ?calls. unat (snd call) \<le> length (readable (fst call))" by simp
  have M: "concat (map appended ?calls) = [1, 2, 3, 6, 7, 8, 9, 10, 11, 12, 13]"
    by (simp add: appended_def)
  from pending_invariant [OF h1 h2] obtain s
    where run: "(c_siphash_init test_api_seed \<bind> (\<lambda>s. c_siphash_appends s ?calls)) = Some s"
      and cnt: "n_bytes s = 11" "unat (n_bytes s) mod 8 = 3"
      and pad: "padding s = le_bytes [11, 12, 13]"
      and bytes: "\<forall>i < 3. ucast (drop_bit (8 * i) (padding s)) =
                    [1, 2, 3, 6, 7, 8, 9, 10, 11, 12, 13 :: u8] ! (8 + i)"
      and high: "drop_bit 24 (padding s) = 0"
    unfolding M Let_def by auto
  from bytes have b0: "ucast (drop_bit 0 (padding s)) = (11 :: u8)"
    by (drule_tac x = 0 in spec) simp
  from bytes have b1: "ucast (drop_bit 8 (padding s)) = (12 :: u8)"
    by (drule_tac x = 1 in spec) simp
  from bytes have b2: "ucast (drop_bit 16 (padding s)) = (13 :: u8)"
    by (drule_tac x = 2 in spec) simp
  have e: "(c_siphash_init test_api_seed \<bind> (\<lambda>s. c_siphash_appends s ?calls)) =
       Some \<lparr>v0 = 11977409501488162279, v1 = 5273709749861378104, v2 = 1242041831145962474,
              v3 = 9287218624430001449, padding = 0x0D0C0B, n_bytes = 11\<rparr>"
    by code_simp
  from h1 run cnt pad b0 b1 b2 high e show ?thesis by simp
qed

text \<open>
  C7. With the seed \<open>0123456789abcdef\<close> and an input of length 0, the one-shot hash (on the
  null pointer and on an empty buffer) and the sequence init, append of length 0, finalize
  all return 12552310112479190712.
\<close>

theorem empty_input_vector:
  "readable test_api_seed =
     [0x30, 0x31, 0x32, 0x33, 0x34, 0x35, 0x36, 0x37, 0x38, 0x39, 0x61, 0x62, 0x63, 0x64, 0x65, 0x66]
   \<and> c_siphash_hash test_api_seed NULL 0 = Some 12552310112479190712
   \<and> c_siphash_hash test_api_seed (Ptr []) 0 = Some 12552310112479190712
   \<and> (c_siphash_init test_api_seed \<bind> (\<lambda>s. c_siphash_append s NULL 0 \<bind> (\<lambda>s. Some (c_siphash_finalize s))))
       = Some 12552310112479190712"
  by (intro conjI; code_simp)

text \<open>
  C8. Two buffers that agree on their first \<open>n\<close> bytes give the same state after
  \<open>c_siphash_append\<close> from the same starting state, and the same \<open>c_siphash_hash\<close>:
  bytes from position \<open>n\<close> on have no influence.
\<close>

theorem append_ignores_bytes_beyond_length:
  assumes "unat n \<le> length (readable b1)" and "unat n \<le> length (readable b2)"
    and "take (unat n) (readable b1) = take (unat n) (readable b2)"
  shows "c_siphash_append s b1 n = c_siphash_append s b2 n \<and>
         c_siphash_hash sd b1 n = c_siphash_hash sd b2 n"
proof -
  have "c_siphash_append t b1 n = c_siphash_append t b2 n" for t
    unfolding append_eq [OF assms(1)] append_eq [OF assms(2)] assms(3) ..
  then show ?thesis by (simp add: c_siphash_hash_def)
qed

theorem append_ignores_bytes_beyond_length_witness:
  "unat (3 :: u64) \<le> length (readable (Ptr [1, 2, 3, 9]))
   \<and> unat (3 :: u64) \<le> length (readable (Ptr [1, 2, 3, 7, 7]))
   \<and> take (unat (3 :: u64)) (readable (Ptr [1, 2, 3, 9])) = take (unat (3 :: u64)) (readable (Ptr [1, 2, 3, 7, 7]))
   \<and> c_siphash_append \<lparr>v0 = 1, v1 = 2, v2 = 3, v3 = 4, padding = 0x0605, n_bytes = 2\<rparr> (Ptr [1, 2, 3, 9]) 3
      = c_siphash_append \<lparr>v0 = 1, v1 = 2, v2 = 3, v3 = 4, padding = 0x0605, n_bytes = 2\<rparr> (Ptr [1, 2, 3, 7, 7]) 3
   \<and> c_siphash_hash test_api_seed (Ptr [1, 2, 3, 9]) 3 = c_siphash_hash test_api_seed (Ptr [1, 2, 3, 7, 7]) 3
   \<and> c_siphash_append \<lparr>v0 = 1, v1 = 2, v2 = 3, v3 = 4, padding = 0x0605, n_bytes = 2\<rparr> (Ptr [1, 2, 3, 9]) 3
      = Some \<lparr>v0 = 1, v1 = 2, v2 = 3, v3 = 4, padding = 0x0302010605, n_bytes = 5\<rparr>"
proof -
  have h1: "unat (3 :: u64) \<le> length (readable (Ptr [1, 2, 3, 9]))" by simp
  have h2: "unat (3 :: u64) \<le> length (readable (Ptr [1, 2, 3, 7, 7]))" by simp
  have h3: "take (unat (3 :: u64)) (readable (Ptr [1, 2, 3, 9])) = take (unat (3 :: u64)) (readable (Ptr [1, 2, 3, 7, 7]))"
    by simp
  have e: "c_siphash_append \<lparr>v0 = 1, v1 = 2, v2 = 3, v3 = 4, padding = 0x0605, n_bytes = 2\<rparr> (Ptr [1, 2, 3, 9]) 3
      = Some \<lparr>v0 = 1, v1 = 2, v2 = 3, v3 = 4, padding = 0x0302010605, n_bytes = 5\<rparr>"
    by code_simp
  from append_ignores_bytes_beyond_length [OF h1 h2 h3] h1 h2 h3 e show ?thesis by blast
qed

text \<open>
  C9. From every engine state, \<open>c_siphash_append\<close> with length 0 returns without a fault,
  on the null pointer and on any buffer, and leaves the whole state as it was.
\<close>

theorem append_zero_is_noop:
  "c_siphash_append s NULL 0 = Some s \<and> c_siphash_append s (Ptr xs) 0 = Some s"
  by (simp add: c_siphash_append_def c_siphash_append_aligned_def Let_def unat_and_7 unat_mod_8
        c_siphash_append_leftover.simps c_siphash_append_words.simps c_siphash_append_switch_def)

text \<open>
  C10. When the buffer has \<open>n\<close> readable bytes, \<open>c_siphash_append\<close> never dereferences
  outside them, whatever the engine state: it does not fault, and it behaves the same on
  the buffer cut down to exactly its first \<open>n\<close> bytes, where every read at an offset
  below 0 or from \<open>n\<close> on would fault.
\<close>

theorem append_reads_in_bounds:
  assumes "unat n \<le> length (readable buf)"
  shows "c_siphash_append s buf n \<noteq> None \<and>
         c_siphash_append s (Ptr (take (unat n) (readable buf))) n = c_siphash_append s buf n"
proof -
  have "unat n \<le> length (readable (Ptr (take (unat n) (readable buf))))"
    using assms by simp
  from append_eq [OF this] append_eq [OF assms] show ?thesis by simp
qed

theorem append_reads_in_bounds_witness:
  "unat (11 :: u64) \<le> length (readable (Ptr [1, 2, 3, 4, 5, 6, 7, 8, 9, 10, 11, 12]))
   \<and> c_siphash_append \<lparr>v0 = 1, v1 = 2, v2 = 3, v3 = 4, padding = 0x0605, n_bytes = 2\<rparr>
        (Ptr [1, 2, 3, 4, 5, 6, 7, 8, 9, 10, 11, 12]) 11 \<noteq> None
   \<and> c_siphash_append \<lparr>v0 = 1, v1 = 2, v2 = 3, v3 = 4, padding = 0x0605, n_bytes = 2\<rparr>
        (Ptr (take (unat (11 :: u64)) (readable (Ptr [1, 2, 3, 4, 5, 6, 7, 8, 9, 10, 11, 12])))) 11
      = c_siphash_append \<lparr>v0 = 1, v1 = 2, v2 = 3, v3 = 4, padding = 0x0605, n_bytes = 2\<rparr>
        (Ptr [1, 2, 3, 4, 5, 6, 7, 8, 9, 10, 11, 12]) 11
   \<and> c_siphash_append \<lparr>v0 = 1, v1 = 2, v2 = 3, v3 = 4, padding = 0x0605, n_bytes = 2\<rparr>
        (Ptr [1, 2, 3, 4, 5, 6, 7, 8, 9, 10, 11, 12]) 11
      = Some \<lparr>v0 = 14866112127670589071, v1 = 10971784483002235546, v2 = 8713598367408801364,
              v3 = 14826785264753957075, padding = 0x0B0A090807, n_bytes = 13\<rparr>"
proof -
  have h: "unat (11 :: u64) \<le> length (readable (Ptr [1, 2, 3, 4, 5, 6, 7, 8, 9, 10, 11, 12]))" by simp
  have e: "c_siphash_append \<lparr>v0 = 1, v1 = 2, v2 = 3, v3 = 4, padding = 0x0605, n_bytes = 2\<rparr>
        (Ptr [1, 2, 3, 4, 5, 6, 7, 8, 9, 10, 11, 12]) 11
      = Some \<lparr>v0 = 14866112127670589071, v1 = 10971784483002235546, v2 = 8713598367408801364,
              v3 = 14826785264753957075, padding = 0x0B0A090807, n_bytes = 13\<rparr>"
    by code_simp
  from append_reads_in_bounds [OF h] h e show ?thesis by blast
qed

end
